theory Spec2Isabelle
  imports Complex_Main "HOL-Library.Log_Nat"
begin

section \<open>Python values and exceptions\<close>

text \<open>
  The program is \<^verbatim>\<open>parallel.py\<close>. Python integers are modelled as \<^typ>\<open>int\<close>
  and Python floats as \<^typ>\<open>real\<close>, with exact arithmetic; the one float operation
  whose rounding is modelled is the division of \<^verbatim>\<open>find_k_seeds\<close>, which yields a
  \<open>py_float\<close>. Every exception the modelled code can raise is a value of \<open>error\<close>,
  carried in the left summand of a result.
\<close>

datatype error =
    IndexError
  | KeyError
  | ValueError
  | ZeroDivisionError
  | OverflowError
  | AttributeError
  | UnboundLocalError

text \<open>Python list indexing \<^verbatim>\<open>xs[i]\<close>: a negative index counts from the end.\<close>

definition py_index :: "'a list \<Rightarrow> int \<Rightarrow> error + 'a" where
  "py_index xs i =
     (let n = int (length xs); j = (if i < 0 then i + n else i)
      in if 0 \<le> j \<and> j < n then Inr (xs ! nat j) else Inl IndexError)"

text \<open>Python slicing \<^verbatim>\<open>xs[a:b]\<close>: bounds are shifted when negative, then clamped.\<close>

definition py_clamp :: "nat \<Rightarrow> int \<Rightarrow> nat" where
  "py_clamp n i = (if i < 0 then nat (max 0 (i + int n)) else min (nat i) n)"

definition py_slice :: "'a list \<Rightarrow> int \<Rightarrow> int \<Rightarrow> 'a list" where
  "py_slice xs a b =
     (let lo = py_clamp (length xs) a; hi = py_clamp (length xs) b
      in take (hi - lo) (drop lo xs))"

text \<open>Python \<^verbatim>\<open>int(x)\<close> on a float truncates towards zero.\<close>

definition py_int :: "real \<Rightarrow> int" where
  "py_int x = (if 0 \<le> x then \<lfloor>x\<rfloor> else \<lceil>x\<rceil>)"

text \<open>
  A double has a significand of 53 bits and an exponent of at least \<open>-1022\<close>. A real
  number is rounded to the nearest multiple of the unit in the last place of its binade
  (of the smallest binade below it), a tie going to the multiple with an even
  significand; a number that would round to \<open>2\<^sup>1\<^sup>0\<^sup>2\<^sup>4\<close> or beyond, that is a
  number from \<open>2\<^sup>1\<^sup>0\<^sup>2\<^sup>4 - 2\<^sup>9\<^sup>7\<^sup>0\<close> on, becomes an infinity.
\<close>

definition round_half_even :: "real \<Rightarrow> int" where
  "round_half_even x =
     (let f = \<lfloor>x\<rfloor>; d = x - real_of_int f
      in if d < 1 / 2 then f else if 1 / 2 < d then f + 1
         else if even f then f else f + 1)"

definition double_exponent :: "real \<Rightarrow> int" where
  "double_exponent x = max \<lfloor>log 2 \<bar>x\<bar>\<rfloor> (- 1022)"

definition double_ulp :: "real \<Rightarrow> real" where
  "double_ulp x = 2 powr (real_of_int (double_exponent x) - 52)"

definition round_double :: "real \<Rightarrow> real" where
  "round_double x =
     (if x = 0 then 0
      else double_ulp x * real_of_int (round_half_even (x / double_ulp x)))"

definition FLOAT_OVERFLOW :: int where
  "FLOAT_OVERFLOW = 2 ^ 1024 - 2 ^ 970"

datatype py_float = Finite real | PosInf | NegInf

definition py_float_of_real :: "real \<Rightarrow> py_float" where
  "py_float_of_real x =
     (if real_of_int FLOAT_OVERFLOW \<le> x then PosInf
      else if x \<le> - real_of_int FLOAT_OVERFLOW then NegInf
      else Finite (round_double x))"


text \<open>
  Python float division \<^verbatim>\<open>x / y\<close> raises on a zero divisor and otherwise returns the
  quotient rounded to a double.
\<close>

definition py_truediv :: "real \<Rightarrow> real \<Rightarrow> error + py_float" where
  "py_truediv x y = (if y = 0 then Inl ZeroDivisionError else Inr (py_float_of_real (x / y)))"

text \<open>
  Python \<^verbatim>\<open>x ** k\<close> for a float base and an integer exponent. The exponent is
  converted to a float first, which raises \<open>OverflowError\<close> for an integer that
  rounds beyond the largest double; a zero base with a negative exponent raises
  \<open>ZeroDivisionError\<close>; a result beyond the largest double raises \<open>OverflowError\<close>.
\<close>

definition py_pow :: "real \<Rightarrow> int \<Rightarrow> error + real" where
  "py_pow x k =
     (if FLOAT_OVERFLOW \<le> \<bar>k\<bar> then Inl OverflowError
      else if k < 0 \<and> x = 0 then Inl ZeroDivisionError
      else
        (let r = (if 0 \<le> k then x ^ nat k else 1 / x ^ nat (- k))
         in if real_of_int FLOAT_OVERFLOW \<le> \<bar>r\<bar> then Inl OverflowError else Inr r))"

text \<open>\<^verbatim>\<open>np.int32(x)\<close>: the value wrapped into the signed 32-bit range.\<close>

definition np_int32 :: "int \<Rightarrow> int" where
  "np_int32 x = (x + 2 ^ 31) mod 2 ^ 32 - 2 ^ 31"

section \<open>The graph\<close>

text \<open>
  A graph is the triple \<^verbatim>\<open>graph[0]\<close>, \<^verbatim>\<open>graph[1]\<close>, \<^verbatim>\<open>graph[2]\<close>:
  edge probabilities, row offsets and column indices, named as
  \<^verbatim>\<open>node_selection\<close> names them.
\<close>

record graph =
  data :: "real list"
  rows :: "int list"
  cols :: "int list"

definition node_count :: "graph \<Rightarrow> int" where
  "node_count G = int (length (rows G)) - 1"

definition edge_count :: "graph \<Rightarrow> int" where
  "edge_count G = int (length (data G))"

section \<open>Constants\<close>

definition L_CONSTANT :: real where
  "L_CONSTANT = 1"

definition EPSILON_CONSTANT :: real where
  "EPSILON_CONSTANT = 2 / 10"

text \<open>
  \<^verbatim>\<open>MEM_BYTES\<close> is read from the operating system when the module is loaded; it is
  a parameter \<open>mem_bytes\<close> of everything that depends on it.
\<close>

definition MEM_GIGABYTES :: "int \<Rightarrow> real" where
  "MEM_GIGABYTES mem_bytes = real_of_int mem_bytes / 1024 ^ 3"

section \<open>Batched sample generation (\<^verbatim>\<open>node_selection\<close>, first half)\<close>

text \<open>
  \<^verbatim>\<open>math.ceil(MEM_GIGABYTES / 2 / num_nodes * 1e-9)\<close>. The divisor is a NumPy
  integer, so a zero divisor gives an infinity (or a NaN for \<open>0 / 0\<close>) and
  \<^verbatim>\<open>math.ceil\<close> raises.
\<close>

definition num_rows_per_batch :: "int \<Rightarrow> int \<Rightarrow> error + int" where
  "num_rows_per_batch mem_bytes num_nodes =
     (if num_nodes = 0 then (if mem_bytes = 0 then Inl ValueError else Inl OverflowError)
      else Inr \<lceil>MEM_GIGABYTES mem_bytes / 2 / real_of_int num_nodes * (1 / 10 ^ 9)\<rceil>)"

text \<open>\<^verbatim>\<open>math.ceil(theta / num_rows_per_batch)\<close> on two Python integers.\<close>

definition num_batches :: "int \<Rightarrow> int \<Rightarrow> error + int" where
  "num_batches theta rpb =
     (if rpb = 0 then Inl ZeroDivisionError
      else Inr \<lceil>real_of_int theta / real_of_int rpb\<rceil>)"

text \<open>
  The CUDA kernel \<^verbatim>\<open>generate_rr_sets\<close> is not part of the Python source. It fills
  the freshly zeroed matrix \<open>R\<close>, whose shape is fixed by \<^verbatim>\<open>np.zeros\<close>; it is a
  parameter \<open>kernel b r v\<close> telling whether the call made for batch \<open>b\<close> sets entry
  \<open>(r, v)\<close>. Allocation and initialisation of the device generator states are outside
  the model.
\<close>

type_synonym kernel = "nat \<Rightarrow> nat \<Rightarrow> nat \<Rightarrow> bool"

type_synonym matrix = "bool list list"

definition fill_matrix :: "kernel \<Rightarrow> nat \<Rightarrow> nat \<Rightarrow> nat \<Rightarrow> matrix" where
  "fill_matrix ker b nrows ncols = map (\<lambda>r. map (\<lambda>v. ker b r v) [0..<ncols]) [0..<nrows]"

text \<open>
  The loop \<^verbatim>\<open>for i in range(num_batches)\<close>. Its state is
  \<open>(num_rows_processed, R)\<close>; \<open>R\<close> is unbound before the first iteration and is
  assigned a new matrix in every iteration.
\<close>

fun batch_loop ::
  "kernel \<Rightarrow> int \<Rightarrow> int \<Rightarrow> int \<Rightarrow> nat list \<Rightarrow> int \<times> matrix option \<Rightarrow> error + (int \<times> matrix option)"
where
  "batch_loop ker num_nodes rpb theta [] st = Inr st"
| "batch_loop ker num_nodes rpb theta (i # batches) (num_rows_processed, R) =
     (let num_rows_to_process = np_int32 (min rpb (theta - num_rows_processed))
      in if num_rows_to_process < 0 \<or> num_nodes < 0 then Inl ValueError
         else batch_loop ker num_nodes rpb theta batches
                (num_rows_processed + num_rows_to_process,
                 Some (fill_matrix ker i (nat num_rows_to_process) (nat num_nodes))))"

definition node_selection_batches ::
  "int \<Rightarrow> kernel \<Rightarrow> graph \<Rightarrow> real \<Rightarrow> error + (int \<times> matrix option)"
where
  "node_selection_batches mem_bytes ker G theta0 =
     (let theta = \<lceil>theta0\<rceil>;
          num_nodes = np_int32 (int (length (rows G)) - 1)
      in case num_rows_per_batch mem_bytes num_nodes of
           Inl e \<Rightarrow> Inl e
         | Inr rpb \<Rightarrow>
             (case num_batches theta rpb of
                Inl e \<Rightarrow> Inl e
              | Inr nb \<Rightarrow> batch_loop ker num_nodes rpb theta [0..<nat nb] (0, None)))"

text \<open>
  What the batch scheduler of the specification computes: the number of rows of
  \<open>node_count\<close> one-byte booleans that fit in half of the memory.
\<close>

definition spec_rows_per_batch :: "int \<Rightarrow> int \<Rightarrow> int" where
  "spec_rows_per_batch mem_bytes num_nodes =
     \<lfloor>(real_of_int mem_bytes / 2) / real_of_int num_nodes\<rfloor>"

section \<open>Lambda and theta (\<^verbatim>\<open>calculate_lambda\<close>, \<^verbatim>\<open>find_k_seeds\<close>)\<close>

text \<open>
  \<^verbatim>\<open>scipy.special.comb(n, k)\<close> is the binomial coefficient, and 0 outside
  \<open>0 \<le> k \<le> n\<close>.
\<close>

definition comb :: "int \<Rightarrow> int \<Rightarrow> real" where
  "comb n k = (if 0 \<le> k \<and> k \<le> n then real (nat n choose nat k) else 0)"

text \<open>
  \<^verbatim>\<open>(8.0 + 2 * e) * n * (l * math.log(n) + math.log(comb(n, k)) + math.log(2)) * e ** -2\<close>;
  \<^verbatim>\<open>math.log\<close> raises \<open>ValueError\<close> outside the positive numbers.
\<close>

definition calculate_lambda :: "int \<Rightarrow> int \<Rightarrow> real \<Rightarrow> real \<Rightarrow> error + real" where
  "calculate_lambda n k l e =
     (if n \<le> 0 then Inl ValueError
      else if comb n k \<le> 0 then Inl ValueError
      else if e = 0 then Inl ZeroDivisionError
      else Inr ((8 + 2 * e) * real_of_int n
                 * (l * ln (real_of_int n) + ln (comb n k) + ln 2) * (1 / e ^ 2)))"

text \<open>
  \<^verbatim>\<open>find_k_seeds\<close> from the value of \<open>kpt\<close> on: \<open>lambda_var\<close>, then
  \<^verbatim>\<open>theta = lambda_var / kpt\<close>.
\<close>

definition find_k_seeds_theta :: "int \<Rightarrow> int \<Rightarrow> real \<Rightarrow> error + py_float" where
  "find_k_seeds_theta n k kpt =
     (case calculate_lambda n k L_CONSTANT EPSILON_CONSTANT of
        Inl e \<Rightarrow> Inl e
      | Inr lambda_var \<Rightarrow> py_truediv lambda_var kpt)"

section \<open>The random number generator\<close>

text \<open>
  The module-level generator of \<^verbatim>\<open>random\<close> is a deterministic state. It is
  modelled by the sequence of raw numbers it will still produce; each call consumes the
  first one. \<^verbatim>\<open>random.choice(range(n))\<close> raises \<open>IndexError\<close> on an empty
  range and otherwise returns a member of the range; \<^verbatim>\<open>random.random()\<close> returns a
  multiple of \<open>2\<^sup>-\<^sup>5\<^sup>3\<close> in \<open>[0, 1)\<close>.
\<close>

type_synonym rng = "nat \<Rightarrow> nat"

definition rng_tail :: "rng \<Rightarrow> rng" where
  "rng_tail g = (\<lambda>i. g (Suc i))"

definition random_choice_range :: "int \<Rightarrow> rng \<Rightarrow> error + (int \<times> rng)" where
  "random_choice_range n g =
     (if n \<le> 0 then Inl IndexError else Inr (int (g 0) mod n, rng_tail g))"

definition random_random :: "rng \<Rightarrow> real \<times> rng" where
  "random_random g = (real (g 0 mod 2 ^ 53) / 2 ^ 53, rng_tail g)"

section \<open>The sequential sampler (\<^verbatim>\<open>random_reverse_reachable_set\<close>)\<close>

text \<open>
  The loop \<^verbatim>\<open>for i in range(len(edges))\<close>. The stack is kept with its top at the
  head of the list, so \<^verbatim>\<open>stack.append(e)\<close> is \<open>e # stack\<close> and
  \<^verbatim>\<open>stack.pop()\<close> takes the head. \<^verbatim>\<open>probabilities[i]\<close> raises when the slice
  of probabilities is shorter than the slice of edges.
\<close>

fun push_edges ::
  "int list \<Rightarrow> real list \<Rightarrow> int list \<Rightarrow> rng \<Rightarrow> error + (int list \<times> rng)"
where
  "push_edges [] probabilities stack g = Inr (stack, g)"
| "push_edges (e # edges) [] stack g = Inl IndexError"
| "push_edges (e # edges) (p # probabilities) stack g =
     (case random_random g of
        (u, g') \<Rightarrow> push_edges edges probabilities (if u < p then e # stack else stack) g')"

text \<open>The loop \<^verbatim>\<open>while stack\<close>, with the state \<open>(stack, visited)\<close> and the generator.\<close>

function rr_loop :: "graph \<Rightarrow> int list \<Rightarrow> int set \<Rightarrow> rng \<Rightarrow> error + (int set \<times> rng)" where
  "rr_loop G [] visited g = Inr (visited, g)"
| "rr_loop G (cur # stack) visited g =
     (if cur \<in> visited then rr_loop G stack visited g
      else
        (case py_index (rows G) cur of
           Inl e \<Rightarrow> Inl e
         | Inr value_start \<Rightarrow>
             (case py_index (rows G) (cur + 1) of
                Inl e \<Rightarrow> Inl e
              | Inr value_end \<Rightarrow>
                  (let edges = py_slice (cols G) value_start value_end;
                       probabilities = py_slice (data G) value_start value_end
                   in case push_edges edges probabilities stack g of
                        Inl e \<Rightarrow> Inl e
                      | Inr (stack', g') \<Rightarrow> rr_loop G stack' (insert cur visited) g'))))"
  by pat_completeness auto

definition random_reverse_reachable_set :: "graph \<Rightarrow> rng \<Rightarrow> error + (int set \<times> rng)" where
  "random_reverse_reachable_set G g =
     (let n = int (length (rows G)) - 1
      in case random_choice_range n g of
           Inl e \<Rightarrow> Inl e
         | Inr (start, g') \<Rightarrow> rr_loop G [start] {} g')"

section \<open>Width (\<^verbatim>\<open>width\<close>)\<close>

text \<open>
  The loop over the members of a set adds \<^verbatim>\<open>graph[1][node + 1] - graph[1][node]\<close>
  for each of them and raises \<open>IndexError\<close> when a lookup is out of range; neither
  outcome depends on the order in which the set is traversed.
\<close>

definition index_ok :: "'a list \<Rightarrow> int \<Rightarrow> bool" where
  "index_ok xs i \<longleftrightarrow> (case py_index xs i of Inl e \<Rightarrow> False | Inr x \<Rightarrow> True)"

definition out_degree :: "graph \<Rightarrow> int \<Rightarrow> int" where
  "out_degree G node =
     (case (py_index (rows G) node, py_index (rows G) (node + 1)) of
        (Inr value_start, Inr value_end) \<Rightarrow> value_end - value_start
      | _ \<Rightarrow> 0)"

definition width :: "graph \<Rightarrow> int set \<Rightarrow> error + int" where
  "width G nodes =
     (if \<forall>node\<in>nodes. index_ok (rows G) node \<and> index_ok (rows G) (node + 1)
      then Inr (\<Sum>node\<in>nodes. out_degree G node)
      else Inl IndexError)"

section \<open>The KPT estimator (\<^verbatim>\<open>kpt_estimation\<close>)\<close>

text \<open>\<^verbatim>\<open>6 * L_CONSTANT * math.log(n) + 6 * math.log(math.log(n, 2)) * 2**i\<close>\<close>

definition ci :: "int \<Rightarrow> nat \<Rightarrow> real" where
  "ci n i = 6 * L_CONSTANT * ln (real_of_int n) + 6 * ln (log 2 (real_of_int n)) * 2 ^ i"

text \<open>
  The loop \<^verbatim>\<open>for j in range(int(ci))\<close>, by the number of iterations still to run;
  it threads \<open>cum_sum\<close> and the generator.
\<close>

fun sample_loop :: "graph \<Rightarrow> int \<Rightarrow> int \<Rightarrow> nat \<Rightarrow> real \<Rightarrow> rng \<Rightarrow> error + (real \<times> rng)" where
  "sample_loop G k m 0 cum_sum g = Inr (cum_sum, g)"
| "sample_loop G k m (Suc j) cum_sum g =
     (case random_reverse_reachable_set G g of
        Inl e \<Rightarrow> Inl e
      | Inr (R, g') \<Rightarrow>
          (case width G R of
             Inl e \<Rightarrow> Inl e
           | Inr w_r \<Rightarrow>
               if m = 0 then Inl ZeroDivisionError
               else
                 (case py_pow (1 - real_of_int w_r / real_of_int m) k of
                    Inl e \<Rightarrow> Inl e
                  | Inr p \<Rightarrow> sample_loop G k m j (cum_sum + (1 - p)) g')))"

text \<open>
  The loop \<^verbatim>\<open>for i in range(1, int(math.log(n, 2)))\<close> over the rounds still to
  run. The inner logarithm raises when its argument is not positive, the two divisions
  by \<open>ci\<close> raise when it is zero.
\<close>

fun kpt_rounds :: "graph \<Rightarrow> int \<Rightarrow> int \<Rightarrow> int \<Rightarrow> nat list \<Rightarrow> rng \<Rightarrow> error + (real \<times> rng)" where
  "kpt_rounds G k n m [] g = Inr (1, g)"
| "kpt_rounds G k n m (i # rounds) g =
     (if log 2 (real_of_int n) \<le> 0 then Inl ValueError
      else
        (case sample_loop G k m (nat (py_int (ci n i))) 0 g of
           Inl e \<Rightarrow> Inl e
         | Inr (cum_sum, g') \<Rightarrow>
             if ci n i = 0 then Inl ZeroDivisionError
             else if cum_sum / ci n i > 1 / 2 ^ i
             then Inr (real_of_int n * cum_sum / (2 * ci n i), g')
             else kpt_rounds G k n m rounds g'))"

definition kpt_estimation :: "graph \<Rightarrow> int \<Rightarrow> rng \<Rightarrow> error + (real \<times> rng)" where
  "kpt_estimation G k g =
     (let n = int (length (rows G)) - 1;
          m = int (length (data G))
      in if n \<le> 0 then Inl ValueError
         else kpt_rounds G k n m [1..<nat (py_int (log 2 (real_of_int n)))] g)"

section \<open>The greedy selector (\<^verbatim>\<open>find_most_common_node\<close>, \<^verbatim>\<open>node_selection\<close>)\<close>

text \<open>
  \<^verbatim>\<open>find_most_common_node\<close> reads its argument with \<^verbatim>\<open>.items()\<close>, which a
  dictionary from sample ids to RR sets has and a NumPy array has not; its argument is
  one or the other. A dictionary is an association list with distinct keys, in the order
  in which it is traversed; an RR set is the list of its distinct members, in the order
  in which it is traversed.
\<close>

type_synonym rr_sets = "(nat \<times> int list) list"

datatype sample_collection = NdArray matrix | Dict rr_sets

definition wf_rr_sets :: "rr_sets \<Rightarrow> bool" where
  "wf_rr_sets R \<longleftrightarrow> distinct (map fst R) \<and> (\<forall>rr_set\<in>set (map snd R). distinct rr_set)"

text \<open>
  The state of the scan is \<open>(counts, exists_in_set, maximum, most_common_node)\<close>;
  the two \<^verbatim>\<open>defaultdict\<close>s are functions with the default value everywhere at the
  start.
\<close>

type_synonym scan_state = "(int \<Rightarrow> nat) \<times> (int \<Rightarrow> nat list) \<times> nat \<times> int"

fun scan_nodes :: "nat \<Rightarrow> int list \<Rightarrow> scan_state \<Rightarrow> scan_state" where
  "scan_nodes set_id [] st = st"
| "scan_nodes set_id (node # rr_set) (counts, exists_in_set, maximum, most_common_node) =
     (let exists_in_set' = exists_in_set (node := exists_in_set node @ [set_id]);
          counts' = counts (node := counts node + 1)
      in if counts' node > maximum
         then scan_nodes set_id rr_set (counts', exists_in_set', counts' node, node)
         else scan_nodes set_id rr_set (counts', exists_in_set', maximum, most_common_node))"

fun scan_sets :: "rr_sets \<Rightarrow> scan_state \<Rightarrow> scan_state" where
  "scan_sets [] st = st"
| "scan_sets ((set_id, rr_set) # rest) st = scan_sets rest (scan_nodes set_id rr_set st)"

fun find_most_common_node :: "sample_collection \<Rightarrow> error + (int \<times> nat list)" where
  "find_most_common_node (NdArray M) = Inl AttributeError"
| "find_most_common_node (Dict rr_sets) =
     (case scan_sets rr_sets (\<lambda>node. 0, \<lambda>node. [], 0, 0) of
        (counts, exists_in_set, maximum, most_common_node) \<Rightarrow>
          Inr (most_common_node, exists_in_set most_common_node))"

text \<open>
  The loop \<^verbatim>\<open>for set_id in sets_to_remove: del R[set_id]\<close>. Deleting from a
  dictionary raises \<open>KeyError\<close> for a missing key; deleting from a NumPy array
  raises \<open>ValueError\<close>.
\<close>

fun remove_sets :: "sample_collection \<Rightarrow> nat list \<Rightarrow> error + sample_collection" where
  "remove_sets R [] = Inr R"
| "remove_sets (NdArray M) (set_id # sets_to_remove) = Inl ValueError"
| "remove_sets (Dict rr_sets) (set_id # sets_to_remove) =
     (if set_id \<in> set (map fst rr_sets)
      then remove_sets (Dict (filter (\<lambda>(i, rr_set). i \<noteq> set_id) rr_sets)) sets_to_remove
      else Inl KeyError)"

text \<open>
  The loop \<^verbatim>\<open>for j in range(k)\<close>, by the number of iterations still to run.
  \<open>R\<close> is what the batch loop left: nothing when no batch ran, and then the first
  use of \<open>R\<close> raises \<open>UnboundLocalError\<close>.
\<close>

fun greedy_loop :: "nat \<Rightarrow> sample_collection option \<Rightarrow> int list \<Rightarrow> error + int list" where
  "greedy_loop 0 R S_k = Inr S_k"
| "greedy_loop (Suc j) None S_k = Inl UnboundLocalError"
| "greedy_loop (Suc j) (Some R) S_k =
     (case find_most_common_node R of
        Inl e \<Rightarrow> Inl e
      | Inr (v_j, sets_to_remove) \<Rightarrow>
          (case remove_sets R sets_to_remove of
             Inl e \<Rightarrow> Inl e
           | Inr R' \<Rightarrow> greedy_loop j (Some R') (S_k @ [v_j])))"

text \<open>
  \<^verbatim>\<open>node_selection\<close>: the batch loop, then the greedy loop on the matrix that the
  last batch assigned to \<open>R\<close>.
\<close>

definition node_selection :: "int \<Rightarrow> kernel \<Rightarrow> graph \<Rightarrow> int \<Rightarrow> real \<Rightarrow> error + int list" where
  "node_selection mem_bytes ker G k theta0 =
     (case node_selection_batches mem_bytes ker G theta0 of
        Inl e \<Rightarrow> Inl e
      | Inr (num_rows_processed, R) \<Rightarrow> greedy_loop (nat k) (map_option NdArray R) [])"

section \<open>Notions of the specification\<close>

text \<open>
  A valid graph (section 3 of the specification): \<open>n + 1\<close> non-decreasing row offsets
  that start at 0 and end at \<open>m\<close>, one neighbour and one probability per edge, every
  neighbour a node id, every probability in \<open>[0, 1]\<close>.
\<close>

definition valid_graph :: "graph \<Rightarrow> bool" where
  "valid_graph G \<longleftrightarrow>
     rows G \<noteq> [] \<and> sorted (rows G) \<and> hd (rows G) = 0 \<and> last (rows G) = edge_count G \<and>
     length (cols G) = length (data G) \<and>
     (\<forall>c\<in>set (cols G). 0 \<le> c \<and> c < node_count G) \<and>
     (\<forall>p\<in>set (data G). 0 \<le> p \<and> p \<le> 1)"

text \<open>
  The estimator in the words of the specification, with the last round as a parameter:
  \<open>round_result G k g i\<close> is the sum \<open>sum_i\<close> of round \<open>i\<close> and the generator after
  it when the rounds \<open>1, \<dots>, i\<close> are run in turn; the estimate is
  \<open>n * sum_i / (2 * c_i)\<close> for the first round that passes the stability test, and 1
  when none does.
\<close>

fun round_result :: "graph \<Rightarrow> int \<Rightarrow> rng \<Rightarrow> nat \<Rightarrow> real \<times> rng" where
  "round_result G k g 0 = (0, g)"
| "round_result G k g (Suc i) =
     (case sample_loop G k (edge_count G) (nat (py_int (ci (node_count G) (Suc i)))) 0
             (snd (round_result G k g i)) of
        Inl e \<Rightarrow> (0, snd (round_result G k g i))
      | Inr r \<Rightarrow> r)"

definition stability_test :: "graph \<Rightarrow> int \<Rightarrow> rng \<Rightarrow> nat \<Rightarrow> bool" where
  "stability_test G k g i \<longleftrightarrow> fst (round_result G k g i) / ci (node_count G) i > 1 / 2 ^ i"

definition kpt_first_stable :: "nat \<Rightarrow> graph \<Rightarrow> int \<Rightarrow> rng \<Rightarrow> real" where
  "kpt_first_stable last_round G k g =
     (case filter (stability_test G k g) [1..<Suc last_round] of
        [] \<Rightarrow> 1
      | i # later \<Rightarrow>
          real_of_int (node_count G) * fst (round_result G k g i) / (2 * ci (node_count G) i))"

text \<open>
  For the scan of a dictionary: the number of its sets that contain a node, its nodes
  in the order of the scan, and what it means that, in a scan, the running count of a
  node is the first to reach a value.
\<close>

definition coverage :: "rr_sets \<Rightarrow> int \<Rightarrow> nat" where
  "coverage R v = length (filter (\<lambda>(set_id, rr_set). v \<in> set rr_set) R)"

definition scan_order :: "rr_sets \<Rightarrow> int list" where
  "scan_order R = concat (map snd R)"

definition first_reaches :: "int list \<Rightarrow> nat \<Rightarrow> int \<Rightarrow> bool" where
  "first_reaches xs M v \<longleftrightarrow>
     (\<exists>p<length xs. xs ! p = v \<and> count_list (take (Suc p) xs) v = M \<and>
        (\<forall>q<p. count_list (take (Suc q) xs) (xs ! q) < M))"

section \<open>Auxiliary notions of the proofs\<close>

text \<open>
  The pairs of a sample id and a node in the order in which the two nested loops of
  \<^verbatim>\<open>find_most_common_node\<close> visit them, and the invariant of its state after a
  prefix of them.
\<close>

definition scan_pairs :: "rr_sets \<Rightarrow> (nat \<times> int) list" where
  "scan_pairs R = concat (map (\<lambda>(set_id, rr_set). map (Pair set_id) rr_set) R)"

definition scan_inv :: "(nat \<times> int) list \<Rightarrow> scan_state \<Rightarrow> bool" where
  "scan_inv ps st \<longleftrightarrow>
     (case st of (counts, exists_in_set, maximum, most_common_node) \<Rightarrow>
        (\<forall>v. counts v = count_list (map snd ps) v) \<and>
        (\<forall>v. exists_in_set v = map fst (filter (\<lambda>p. snd p = v) ps)) \<and>
        (\<forall>v. count_list (map snd ps) v \<le> maximum) \<and>
        (if maximum = 0 then most_common_node = 0
         else first_reaches (map snd ps) maximum most_common_node))"

text \<open>A graph with three nodes and one edge, from node 0 to itself, of probability 1.\<close>

abbreviation G3 :: graph where
  "G3 \<equiv> \<lparr>data = [1], rows = [0, 1, 1, 1], cols = [0]\<rparr>"

text \<open>The same with four nodes.\<close>

abbreviation G4 :: graph where
  "G4 \<equiv> \<lparr>data = [1], rows = [0, 1, 1, 1, 1], cols = [0]\<rparr>"

section \<open>Termination of the walk\<close>

lemma push_edges_set:
  "push_edges edges ps stack g = Inr (stack', g') \<Longrightarrow> set stack' \<subseteq> set stack \<union> set edges"
proof (induction edges arbitrary: ps stack g)
  case Nil
  then show ?case by simp
next
  case (Cons e edges)
  show ?case
  proof (cases ps)
    case Nil
    with Cons.prems show ?thesis by simp
  next
    case (Cons p ps')
    with Cons.prems Cons.IH [of ps' _ "snd (random_random g)"] show ?thesis
      by (fastforce simp: split_beta split: if_splits)
  qed
qed

lemma set_py_slice: "set (py_slice xs a b) \<subseteq> set xs"
  unfolding py_slice_def Let_def
  by (meson set_take_subset set_drop_subset subset_trans)

lemma rr_measure_decreases:
  assumes "cur \<notin> visited" "set stack' \<subseteq> set stack \<union> set (cols G)"
  shows "card ((set (cols G) \<union> set stack') - insert cur visited)
       < card ((set (cols G) \<union> set (cur # stack)) - visited)"
proof (rule psubset_card_mono)
  show "finite ((set (cols G) \<union> set (cur # stack)) - visited)" by simp
  show "(set (cols G) \<union> set stack') - insert cur visited
        \<subset> (set (cols G) \<union> set (cur # stack)) - visited"
    using assms by auto
qed

text \<open>
  Every iteration either marks a node that is on the stack or among the column indices
  and was not visited before, or only shortens the stack: the number of such unvisited
  nodes, then the length of the stack, decreases.
\<close>

termination rr_loop
proof (relation "inv_image (less_than <*lex*> less_than)
         (\<lambda>(G, stack, visited, g). (card ((set (cols G) \<union> set stack) - visited), length stack))",
       goal_cases)
  case 1
  show ?case by (intro wf_inv_image wf_lex_prod wf_less_than)
next
  case (2 G cur stack visited g)
  have "card ((set (cols G) \<union> set stack) - visited)
        \<le> card ((set (cols G) \<union> set (cur # stack)) - visited)"
    by (rule card_mono) auto
  then show ?case by auto
next
  case (3 G cur stack visited g value_start value_end edges probabilities res stack' g')
  from 3 have "set stack' \<subseteq> set stack \<union> set (cols G)"
    using push_edges_set set_py_slice by (metis (no_types, lifting) Un_mono subset_refl subset_trans)
  with 3 show ?case
    using rr_measure_decreases [of cur visited stack' stack G] by simp
qed

section \<open>Batches\<close>

lemma ceiling_unit: "0 < x \<Longrightarrow> x \<le> 1 \<Longrightarrow> \<lceil>x::real\<rceil> = 1"
  by (rule ceiling_unique) auto

text \<open>With 16 GiB of memory the batch size is one row, whatever the graph.\<close>

lemma num_rows_per_batch_16GiB:
  "0 < num_nodes \<Longrightarrow> num_rows_per_batch 17179869184 num_nodes = Inr 1"
proof -
  assume n: "0 < num_nodes"
  then have "1 \<le> real_of_int num_nodes" by simp
  then have "16 / (real_of_int num_nodes * 2000000000) \<le> 16 / (1 * 2000000000)"
    by (intro divide_left_mono mult_right_mono) auto
  then have "16 / (real_of_int num_nodes * 2000000000) \<le> 1" by simp
  moreover have "0 < 16 / (real_of_int num_nodes * 2000000000)" using n by simp
  ultimately show ?thesis
    using n by (simp add: num_rows_per_batch_def MEM_GIGABYTES_def ceiling_unit)
qed

text \<open>
  C1. The batches together generate \<open>ceil(theta)\<close> rows, but every batch assigns a new
  matrix to \<open>R\<close>, so the selector is handed the rows of the last batch only. On a
  one-node graph with 16 GiB of memory and \<open>theta = 2\<close>, two batches of one row each
  are generated (\<open>num_rows_processed = 2\<close>) and \<open>R\<close> ends with the single row of
  batch 1; the row of batch 0, which the kernel of this run fills with \<open>True\<close>, is gone.
\<close>

theorem batches_overwrite_R:
  "node_selection_batches 17179869184 (\<lambda>b r v. b = 0)
     \<lparr>data = [], rows = [0, 0], cols = []\<rparr> 2
   = Inr (2, Some [[False]])"
  by (simp add: node_selection_batches_def num_rows_per_batch_16GiB num_batches_def
       np_int32_def fill_matrix_def upt_conv_Cons)

text \<open>
  C3. The batch size is meant to be the number of rows that fit in half of the memory
  (the module's note on batch processing), as the claim says: with 16 GiB and 1000 nodes
  that is \<open>floor(8589934592 / 1000) = 8589934\<close> rows. The code multiplies the
  figure in gigabytes by \<open>1e-9\<close> and rounds up, and computes 1.
\<close>

theorem rows_per_batch_not_floor:
  "num_rows_per_batch 17179869184 1000 = Inr 1 \<and>
   spec_rows_per_batch 17179869184 1000 = 8589934"
  by (simp add: num_rows_per_batch_16GiB spec_rows_per_batch_def)

section \<open>The greedy loop on the matrix\<close>

text \<open>One batch of one row on a graph with one node and one edge, with 16 GiB.\<close>

lemma one_batch:
  "node_selection_batches 17179869184 (\<lambda>b r v. True) \<lparr>data = [1], rows = [0, 1], cols = [0]\<rparr> 1
   = Inr (1, Some [[True]])"
  by (simp add: node_selection_batches_def num_rows_per_batch_16GiB num_batches_def
       np_int32_def fill_matrix_def upt_conv_Cons)

text \<open>
  C4. The claim describes the pick of every greedy iteration. In \<^verbatim>\<open>node_selection\<close>
  the collection handed to \<^verbatim>\<open>find_most_common_node\<close> is the matrix of the last
  batch, a NumPy array, and \<^verbatim>\<open>rr_sets.items()\<close> raises \<open>AttributeError\<close> in the
  first iteration: with one sample and \<open>k = 1\<close> no node is appended at all.
\<close>

theorem first_pick_raises:
  "node_selection 17179869184 (\<lambda>b r v. True) \<lparr>data = [1], rows = [0, 1], cols = [0]\<rparr> 1 1
   = Inl AttributeError"
  by (simp add: node_selection_def one_batch)

text \<open>
  C5. With one sample and \<open>k = 2\<close> the samples are exhausted before \<open>k\<close> picks. The
  claim has a seed list shorter than \<open>k\<close> returned without an error;
  \<^verbatim>\<open>node_selection\<close> raises \<open>AttributeError\<close> in its first iteration, for the
  same reason.
\<close>

theorem exhaustion_raises:
  "node_selection 17179869184 (\<lambda>b r v. True) \<lparr>data = [1], rows = [0, 1], cols = [0]\<rparr> 2 1
   = Inl AttributeError"
  by (simp add: node_selection_def one_batch numeral_2_eq_2)

section \<open>Rounding to a double\<close>


lemma round_half_even_of_int [simp]: "round_half_even (real_of_int n) = n"
  by (simp add: round_half_even_def)

lemma round_half_even_numeral [simp]: "round_half_even (numeral n) = numeral n"
  using round_half_even_of_int [of "numeral n"] by simp













section \<open>Lambda and theta\<close>

lemma calculate_lambda_pos:
  assumes "1 \<le> n" "0 \<le> k" "k \<le> n"
  shows "\<exists>lam. calculate_lambda n k L_CONSTANT EPSILON_CONSTANT = Inr lam \<and> 0 < lam"
proof -
  have c: "1 \<le> comb n k"
    using assms by (simp add: comb_def Suc_le_eq nat_le_iff)
  have "0 \<le> ln (real_of_int n)" using assms by simp
  moreover have "0 \<le> ln (comb n k)" using c by simp
  moreover have "0 < ln (2::real)" by simp
  ultimately have "0 < 1 * ln (real_of_int n) + ln (comb n k) + ln 2" by linarith
  then have "0 < (8 + 2 * (2 / 10)) * real_of_int n
                 * (1 * ln (real_of_int n) + ln (comb n k) + ln 2) * (1 / (2 / 10) ^ 2)"
    using assms by (intro mult_pos_pos) auto
  then show ?thesis
    using assms c by (simp add: calculate_lambda_def L_CONSTANT_def EPSILON_CONSTANT_def)
qed

text \<open>
  C7, as stated: a value \<open>KPT \<le> 0\<close> makes the computation of theta fail with a
  \<open>DegenerateInput\<close> error instead of dividing by zero. For \<open>n = 4\<close>, \<open>k = 2\<close> the
  code with \<open>KPT = 0\<close> raises the \<open>ZeroDivisionError\<close> of the division itself, and
  with \<open>KPT = -1\<close> it does not fail at all.
\<close>

theorem theta_nonpositive_kpt_counterexample:
  "find_k_seeds_theta 4 2 0 = Inl ZeroDivisionError \<and>
   \<not> isl (find_k_seeds_theta 4 2 (- 1))"
proof -
  obtain lam where "calculate_lambda 4 2 L_CONSTANT EPSILON_CONSTANT = Inr lam"
    using calculate_lambda_pos [of 4 2] by auto
  then show ?thesis
    by (simp add: find_k_seeds_theta_def py_truediv_def)
qed

text \<open>
  C7, amended: when lambda is defined and \<open>KPT \<le> 0\<close>, the computation of theta
  raises \<open>ZeroDivisionError\<close> for \<open>KPT = 0\<close> and returns the quotient
  \<open>lambda / KPT\<close>, rounded to a float, for \<open>KPT < 0\<close>.
\<close>

theorem theta_nonpositive_kpt:
  assumes "calculate_lambda n k L_CONSTANT EPSILON_CONSTANT = Inr lam" "kpt \<le> 0"
  shows "find_k_seeds_theta n k kpt =
           (if kpt = 0 then Inl ZeroDivisionError else Inr (py_float_of_real (lam / kpt)))"
  using assms by (simp add: find_k_seeds_theta_def py_truediv_def)

theorem theta_nonpositive_kpt_witness:
  "\<exists>lam. calculate_lambda 4 2 L_CONSTANT EPSILON_CONSTANT = Inr lam \<and> (0::real) \<le> 0 \<and>
     find_k_seeds_theta 4 2 0 = Inl ZeroDivisionError \<and>
     find_k_seeds_theta 4 2 (- 1) = Inr (py_float_of_real (lam / (- 1)))"
proof -
  obtain lam where l: "calculate_lambda 4 2 L_CONSTANT EPSILON_CONSTANT = Inr lam"
    using calculate_lambda_pos [of 4 2] by auto
  show ?thesis
    using l theta_nonpositive_kpt [OF l, of 0] theta_nonpositive_kpt [OF l, of "- 1"]
    by simp
qed




section \<open>The walk on a valid graph\<close>

lemma py_index_nat:
  "0 \<le> i \<Longrightarrow> i < int (length xs) \<Longrightarrow> py_index xs i = Inr (xs ! nat i)"
  by (simp add: py_index_def)

lemma length_py_slice:
  "length xs = length ys \<Longrightarrow> length (py_slice xs a b) = length (py_slice ys a b)"
  by (simp add: py_slice_def Let_def)

lemma push_edges_ok:
  "length edges \<le> length ps \<Longrightarrow>
   \<exists>stack' g'. push_edges edges ps stack g = Inr (stack', g') \<and>
     set stack \<subseteq> set stack' \<and> set stack' \<subseteq> set stack \<union> set edges"
proof (induction edges arbitrary: ps stack g)
  case Nil
  then show ?case by simp
next
  case (Cons e edges)
  then obtain p ps' where ps: "ps = p # ps'" by (cases ps) auto
  obtain u g1 where r: "random_random g = (u, g1)" by (cases "random_random g")
  from Cons.prems ps have "length edges \<le> length ps'" by simp
  from Cons.IH [OF this, of "if u < p then e # stack else stack" g1]
  show ?case using ps r by (auto split: if_splits)
qed

lemma rr_loop_valid:
  "valid_graph G \<Longrightarrow>
   \<forall>c\<in>set stack. 0 \<le> c \<and> c < node_count G \<Longrightarrow>
   \<forall>c\<in>visited. 0 \<le> c \<and> c < node_count G \<Longrightarrow>
   \<exists>V g'. rr_loop G stack visited g = Inr (V, g') \<and>
      visited \<union> set stack \<subseteq> V \<and> (\<forall>c\<in>V. 0 \<le> c \<and> c < node_count G)"
proof (induction G stack visited g rule: rr_loop.induct)
  case (1 G visited g)
  then show ?case by simp
next
  case (2 G cur stack visited g)
  note valid = "2.prems"(1)
  show ?case
  proof (cases "cur \<in> visited")
    case True
    with 2 show ?thesis by auto
  next
    case False
    from "2.prems" have cur: "0 \<le> cur" "cur < node_count G" by auto
    have len: "int (length (rows G)) = node_count G + 1" by (simp add: node_count_def)
    have i1: "py_index (rows G) cur = Inr (rows G ! nat cur)"
      using cur len by (intro py_index_nat) auto
    have i2: "py_index (rows G) (cur + 1) = Inr (rows G ! nat (cur + 1))"
      using cur len by (intro py_index_nat) auto
    define edges where "edges = py_slice (cols G) (rows G ! nat cur) (rows G ! nat (cur + 1))"
    define probabilities where
      "probabilities = py_slice (data G) (rows G ! nat cur) (rows G ! nat (cur + 1))"
    have "length (cols G) = length (data G)"
      using valid by (simp add: valid_graph_def)
    then have "length edges = length probabilities"
      unfolding edges_def probabilities_def by (rule length_py_slice)
    then have "length edges \<le> length probabilities" by simp
    from push_edges_ok [OF this, of stack g]
    obtain stack' g' where p: "push_edges edges probabilities stack g = Inr (stack', g')"
      "set stack \<subseteq> set stack'" "set stack' \<subseteq> set stack \<union> set edges" by blast
    have "set edges \<subseteq> set (cols G)" by (simp add: edges_def set_py_slice)
    with p(3) "2.prems"(2) valid have st: "\<forall>c\<in>set stack'. 0 \<le> c \<and> c < node_count G"
      by (auto simp: valid_graph_def)
    have vis: "\<forall>c\<in>insert cur visited. 0 \<le> c \<and> c < node_count G"
      using cur "2.prems"(3) by auto
    from "2.IH"(2) [OF False i1 i2 edges_def probabilities_def p(1) refl valid st vis]
    obtain V g'' where r: "rr_loop G stack' (insert cur visited) g' = Inr (V, g'')"
      "insert cur visited \<union> set stack' \<subseteq> V" "\<forall>c\<in>V. 0 \<le> c \<and> c < node_count G"
      by blast
    have "rr_loop G (cur # stack) visited g = Inr (V, g'')"
      using False i1 i2 p(1) r(1) by (simp add: edges_def probabilities_def)
    with r p(2) show ?thesis by auto
  qed
qed

lemma random_reverse_reachable_set_valid:
  assumes "valid_graph G" "1 \<le> node_count G"
  shows "\<exists>V g'. random_reverse_reachable_set G g = Inr (V, g') \<and>
            V \<noteq> {} \<and> (\<forall>c\<in>V. 0 \<le> c \<and> c < node_count G)"
proof -
  define start where "start = int (g 0) mod node_count G"
  have s: "0 \<le> start" "start < node_count G"
    using assms(2) by (simp_all add: start_def)
  from rr_loop_valid [OF assms(1), of "[start]" "{}" "rng_tail g"] s
  obtain V g' where r: "rr_loop G [start] {} (rng_tail g) = Inr (V, g')"
    "set [start] \<subseteq> V" "\<forall>c\<in>V. 0 \<le> c \<and> c < node_count G" by auto
  have "random_reverse_reachable_set G g = Inr (V, g')"
    using assms(2) r(1)
    by (simp add: random_reverse_reachable_set_def random_choice_range_def start_def
        node_count_def)
  with r show ?thesis by auto
qed

text \<open>
  C8. \<open>rr_loop\<close> is defined by well-founded recursion for every graph, stack, visited
  set and generator: the termination proof above is the argument that the visited set
  guards re-expansion, so the loop ends on all inputs. On a valid graph no lookup fails
  either: started on node ids, the walk returns a set of node ids that contains the
  visited set and the stack it started from; and \<^verbatim>\<open>random_reverse_reachable_set\<close>,
  which needs a node to start from, returns a non-empty finite set of node ids.
\<close>

theorem rr_walk_returns_visited:
  assumes "valid_graph G"
  shows "((\<forall>c\<in>set stack. 0 \<le> c \<and> c < node_count G) \<and>
          (\<forall>c\<in>visited. 0 \<le> c \<and> c < node_count G) \<longrightarrow>
            (\<exists>V g'. rr_loop G stack visited g = Inr (V, g') \<and>
               visited \<union> set stack \<subseteq> V \<and> (\<forall>c\<in>V. 0 \<le> c \<and> c < node_count G))) \<and>
         (1 \<le> node_count G \<longrightarrow>
            (\<exists>V g'. random_reverse_reachable_set G g = Inr (V, g') \<and>
               V \<noteq> {} \<and> finite V \<and> (\<forall>c\<in>V. 0 \<le> c \<and> c < node_count G)))"
proof (intro conjI impI)
  assume "(\<forall>c\<in>set stack. 0 \<le> c \<and> c < node_count G) \<and>
          (\<forall>c\<in>visited. 0 \<le> c \<and> c < node_count G)"
  then show "\<exists>V g'. rr_loop G stack visited g = Inr (V, g') \<and>
               visited \<union> set stack \<subseteq> V \<and> (\<forall>c\<in>V. 0 \<le> c \<and> c < node_count G)"
    using rr_loop_valid [OF assms, of stack visited g] by blast
next
  assume "1 \<le> node_count G"
  then obtain V g' where r: "random_reverse_reachable_set G g = Inr (V, g')" "V \<noteq> {}"
    "\<forall>c\<in>V. 0 \<le> c \<and> c < node_count G"
    using random_reverse_reachable_set_valid [OF assms, of g] by blast
  from r(3) have "V \<subseteq> {0..<node_count G}" by auto
  then have "finite V" by (rule finite_subset) simp
  with r show "\<exists>V g'. random_reverse_reachable_set G g = Inr (V, g') \<and>
               V \<noteq> {} \<and> finite V \<and> (\<forall>c\<in>V. 0 \<le> c \<and> c < node_count G)"
    by blast
qed

theorem rr_walk_returns_visited_witness:
  "valid_graph \<lparr>data = [1], rows = [0, 1], cols = [0]\<rparr> \<and>
   (\<exists>V g'. rr_loop \<lparr>data = [1], rows = [0, 1], cols = [0]\<rparr> [0] {} (\<lambda>i. 0) = Inr (V, g') \<and>
      {} \<union> set [0] \<subseteq> V) \<and>
   (\<exists>V g'. random_reverse_reachable_set \<lparr>data = [1], rows = [0, 1], cols = [0]\<rparr> (\<lambda>i. 0)
              = Inr (V, g') \<and> V \<noteq> {} \<and> finite V)"
  using rr_walk_returns_visited
          [of "\<lparr>data = [1], rows = [0, 1], cols = [0]\<rparr>" "[0]" "{}" "\<lambda>i. 0"]
  by (simp add: valid_graph_def edge_count_def node_count_def) blast

section \<open>Width and samples on a valid graph\<close>

lemma out_degree_nat:
  assumes "0 \<le> c" "c < node_count G"
  shows "out_degree G c = rows G ! Suc (nat c) - rows G ! nat c"
    and "index_ok (rows G) c" and "index_ok (rows G) (c + 1)"
proof -
  have len: "int (length (rows G)) = node_count G + 1" by (simp add: node_count_def)
  have i1: "py_index (rows G) c = Inr (rows G ! nat c)"
    using assms len by (intro py_index_nat) auto
  have i2: "py_index (rows G) (c + 1) = Inr (rows G ! nat (c + 1))"
    using assms len by (intro py_index_nat) auto
  have s: "nat (c + 1) = Suc (nat c)" using assms by simp
  show "out_degree G c = rows G ! Suc (nat c) - rows G ! nat c"
    by (simp add: out_degree_def i1 i2 s)
  show "index_ok (rows G) c" by (simp add: index_ok_def i1)
  show "index_ok (rows G) (c + 1)" by (simp add: index_ok_def i2)
qed

lemma sum_out_degree_all:
  assumes "valid_graph G"
  shows "(\<Sum>c\<in>{0..<node_count G}. out_degree G c) = edge_count G"
proof -
  define n where "n = nat (node_count G)"
  have rows: "rows G \<noteq> []" "hd (rows G) = 0" "last (rows G) = edge_count G"
    using assms by (simp_all add: valid_graph_def)
  then have len: "length (rows G) = Suc n"
    by (cases "rows G") (simp_all add: n_def node_count_def)
  have nc: "node_count G = int n" using len by (simp add: node_count_def)
  have img: "{0..<node_count G} = int ` {0..<n}"
    unfolding nc by (simp add: image_int_atLeastLessThan)
  have "(\<Sum>c\<in>{0..<node_count G}. out_degree G c) = (\<Sum>i\<in>{0..<n}. out_degree G (int i))"
    unfolding img by (simp add: sum.reindex)
  also have "\<dots> = (\<Sum>i\<in>{0..<n}. rows G ! Suc i - rows G ! i)"
    by (rule sum.cong) (simp_all add: out_degree_nat(1) nc)
  also have "\<dots> = rows G ! n - rows G ! 0"
    by (simp add: atLeast0LessThan sum_lessThan_telescope)
  also have "rows G ! n = last (rows G)"
    using rows(1) len by (simp add: last_conv_nth)
  also have "rows G ! 0 = hd (rows G)"
    using rows(1) by (simp add: hd_conv_nth)
  finally show ?thesis using rows by simp
qed

lemma out_degree_nonneg:
  assumes "valid_graph G" "0 \<le> c" "c < node_count G"
  shows "0 \<le> out_degree G c"
proof -
  have "sorted (rows G)" using assms(1) by (simp add: valid_graph_def)
  moreover have "Suc (nat c) < length (rows G)"
    using assms(2,3) by (simp add: node_count_def)
  ultimately have "rows G ! nat c \<le> rows G ! Suc (nat c)"
    by (simp add: sorted_nth_mono)
  then show ?thesis using assms by (simp add: out_degree_nat(1))
qed

lemma width_valid:
  assumes "valid_graph G" "\<forall>c\<in>V. 0 \<le> c \<and> c < node_count G"
  shows "\<exists>w. width G V = Inr w \<and> 0 \<le> w \<and> w \<le> edge_count G"
proof -
  have sub: "V \<subseteq> {0..<node_count G}" using assms(2) by auto
  have ok: "\<forall>node\<in>V. index_ok (rows G) node \<and> index_ok (rows G) (node + 1)"
    using assms(2) out_degree_nat(2,3) by blast
  have "(\<Sum>c\<in>V. out_degree G c) \<le> (\<Sum>c\<in>{0..<node_count G}. out_degree G c)"
    using sub assms(1) by (intro sum_mono2) (auto simp: out_degree_nonneg)
  then have up: "(\<Sum>c\<in>V. out_degree G c) \<le> edge_count G"
    by (simp add: sum_out_degree_all [OF assms(1)])
  have lo: "0 \<le> (\<Sum>c\<in>V. out_degree G c)"
    using assms by (intro sum_nonneg) (auto simp: out_degree_nonneg)
  show ?thesis using ok up lo by (simp add: width_def)
qed

lemma py_pow_unit:
  assumes "0 \<le> k" "k < FLOAT_OVERFLOW" "0 \<le> x" "x \<le> 1"
  shows "\<exists>p. py_pow x k = Inr p \<and> 0 \<le> p \<and> p \<le> 1"
proof -
  have r: "0 \<le> x ^ nat k" "x ^ nat k \<le> 1"
    using assms(3,4) by (simp_all add: power_le_one)
  have "(1::int) < FLOAT_OVERFLOW" by (simp add: FLOAT_OVERFLOW_def)
  then have "1 < real_of_int FLOAT_OVERFLOW" by linarith
  then have "\<not> real_of_int FLOAT_OVERFLOW \<le> \<bar>x ^ nat k\<bar>" using r by linarith
  then show ?thesis
    using assms(1,2) r by (simp add: py_pow_def Let_def)
qed


lemma sample_loop_valid:
  assumes "valid_graph G" "1 \<le> node_count G" "1 \<le> edge_count G"
    and "0 \<le> k" "k < FLOAT_OVERFLOW"
  shows "\<exists>s g'. sample_loop G k (edge_count G) j cum_sum g = Inr (s, g') \<and>
           cum_sum \<le> s \<and> s \<le> cum_sum + real j"
proof (induction j arbitrary: cum_sum g)
  case 0
  show ?case by simp
next
  case (Suc j)
  obtain R g1 where rr: "random_reverse_reachable_set G g = Inr (R, g1)"
    "\<forall>c\<in>R. 0 \<le> c \<and> c < node_count G"
    using random_reverse_reachable_set_valid [OF assms(1,2), of g] by blast
  obtain w_r where w: "width G R = Inr w_r" "0 \<le> w_r" "w_r \<le> edge_count G"
    using width_valid [OF assms(1) rr(2)] by blast
  define x where "x = 1 - real_of_int w_r / real_of_int (edge_count G)"
  have "real_of_int w_r / real_of_int (edge_count G) \<le> 1"
    using w assms(3) by (simp add: divide_le_eq_1)
  moreover have "0 \<le> real_of_int w_r / real_of_int (edge_count G)"
    using w assms(3) by simp
  ultimately have x: "0 \<le> x" "x \<le> 1" by (simp_all add: x_def)
  obtain p where p: "py_pow x k = Inr p" "0 \<le> p" "p \<le> 1"
    using py_pow_unit [OF assms(4,5) x] by blast
  obtain s g' where s: "sample_loop G k (edge_count G) j (cum_sum + (1 - p)) g1 = Inr (s, g')"
    "cum_sum + (1 - p) \<le> s" "s \<le> cum_sum + (1 - p) + real j"
    using Suc.IH [of "cum_sum + (1 - p)" g1] by blast
  have "sample_loop G k (edge_count G) (Suc j) cum_sum g = Inr (s, g')"
    using rr(1) w(1) p(1) s(1) assms(3) by (simp add: x_def)
  moreover have "cum_sum \<le> s" using s(2) p(3) by linarith
  moreover have "s \<le> cum_sum + real (Suc j)" using s(3) p(2) by simp
  ultimately show ?case by blast
qed

lemma log2_ge_1: "2 \<le> n \<Longrightarrow> 1 \<le> log 2 (real_of_int n)"
proof -
  assume "2 \<le> n"
  then have "log 2 2 \<le> log 2 (real_of_int n)"
    by (subst log_le_cancel_iff) auto
  then show ?thesis by simp
qed

lemma ci_pos: "2 \<le> n \<Longrightarrow> 0 < ci n i"
proof -
  assume n: "2 \<le> n"
  then have "0 < ln (real_of_int n)" by simp
  moreover have "0 \<le> ln (log 2 (real_of_int n))"
    using log2_ge_1 [OF n] by simp
  then have "0 \<le> 6 * ln (log 2 (real_of_int n)) * 2 ^ i" by simp
  ultimately show ?thesis by (simp add: ci_def L_CONSTANT_def add_pos_nonneg)
qed




lemma py_int_log2: "1 \<le> n \<Longrightarrow> py_int (log 2 (real_of_int n)) = \<lfloor>log 2 (real_of_int n)\<rfloor>"
  by (simp add: py_int_def)

lemma kpt_estimation_unfold:
  assumes "1 \<le> node_count G"
  shows "kpt_estimation G k g =
           kpt_rounds G k (node_count G) (edge_count G)
             [1..<nat \<lfloor>log 2 (real_of_int (node_count G))\<rfloor>] g"
proof -
  have "\<not> node_count G \<le> 0" using assms by simp
  then show ?thesis
    unfolding kpt_estimation_def Let_def node_count_def [symmetric] edge_count_def [symmetric]
    using assms by (simp add: py_int_log2)
qed

lemma log2_lt_2: "1 \<le> n \<Longrightarrow> n < 4 \<Longrightarrow> log 2 (real_of_int n) < 2"
proof -
  assume n: "1 \<le> n" "n < 4"
  then have "real_of_int n < 4" by simp
  then have "log 2 (real_of_int n) < log 2 4"
    using n by (subst log_less_cancel_iff) auto
  moreover have "log 2 (4::real) = 2" using log_nat_power [of 2 2 2] by simp
  ultimately show ?thesis by simp
qed

lemma log2_ge_2: "4 \<le> n \<Longrightarrow> 2 \<le> log 2 (real_of_int n)"
proof -
  assume n: "4 \<le> n"
  then have "log 2 4 \<le> log 2 (real_of_int n)"
    by (subst log_le_cancel_iff) auto
  moreover have "log 2 (4::real) = 2" using log_nat_power [of 2 2 2] by simp
  ultimately show ?thesis by simp
qed

text \<open>With fewer than four nodes no round runs.\<close>

lemma kpt_estimation_small:
  assumes "1 \<le> node_count G" "node_count G < 4"
  shows "kpt_estimation G k g = Inr (1, g)"
proof -
  define U where "U = nat \<lfloor>log 2 (real_of_int (node_count G))\<rfloor>"
  have "\<lfloor>log 2 (real_of_int (node_count G))\<rfloor> \<le> 1"
    using log2_lt_2 [OF assms] by linarith
  then have "U \<le> 1" unfolding U_def by linarith
  then have e: "[1..<U] = []" by simp
  have "kpt_estimation G k g = kpt_rounds G k (node_count G) (edge_count G) [1..<U] g"
    unfolding U_def by (rule kpt_estimation_unfold [OF assms(1)])
  then show ?thesis unfolding e by simp
qed


lemma ci_gt_6: "4 \<le> n \<Longrightarrow> 6 < ci n i"
proof -
  assume n: "4 \<le> n"
  have "exp 1 \<le> (3::real)" by (rule exp_le)
  also have "\<dots> < real_of_int n" using n by simp
  finally have "ln (exp 1) < ln (real_of_int n)" using n by (subst ln_less_cancel_iff) auto
  then have a: "1 < ln (real_of_int n)" by simp
  have "1 \<le> log 2 (real_of_int n)" using log2_ge_2 [OF n] by simp
  then have "0 \<le> ln (log 2 (real_of_int n))" by simp
  then have b: "0 \<le> 6 * ln (log 2 (real_of_int n)) * 2 ^ i" by simp
  have "ci n i = 6 * ln (real_of_int n) + 6 * ln (log 2 (real_of_int n)) * 2 ^ i"
    by (simp add: ci_def L_CONSTANT_def)
  then show ?thesis using a b by linarith
qed


section \<open>The estimate on the example graphs\<close>

lemma rng_tail_const: "rng_tail (\<lambda>i. 0) = (\<lambda>i. 0)"
  by (simp add: rng_tail_def)

lemma valid_G4: "valid_graph G4" "node_count G4 = 4" "edge_count G4 = 1"
  by (simp_all add: valid_graph_def edge_count_def node_count_def)

lemma rr_G4: "random_reverse_reachable_set G4 (\<lambda>i. 0) = Inr ({0}, \<lambda>i. 0)"
  by (simp add: random_reverse_reachable_set_def random_choice_range_def
      rng_tail_const py_index_def py_slice_def py_clamp_def random_random_def)

lemma width_G4: "width G4 {0} = Inr 1"
  by (simp add: width_def index_ok_def out_degree_def py_index_def)

lemma py_pow_zero: "0 < k \<Longrightarrow> k < FLOAT_OVERFLOW \<Longrightarrow> py_pow 0 k = Inr 0"
proof -
  assume k: "0 < k" "k < FLOAT_OVERFLOW"
  have "(0::int) < FLOAT_OVERFLOW" by (simp add: FLOAT_OVERFLOW_def)
  then have "\<not> real_of_int FLOAT_OVERFLOW \<le> 0" by simp
  then show ?thesis using k by (simp add: py_pow_def Let_def power_0_left)
qed

lemma sample_loop_G4:
  "0 < k \<Longrightarrow> k < FLOAT_OVERFLOW \<Longrightarrow>
   sample_loop G4 k 1 j cum_sum (\<lambda>i. 0) = Inr (cum_sum + real j, \<lambda>i. 0)"
  by (induction j arbitrary: cum_sum) (simp_all add: rr_G4 width_G4 py_pow_zero)

lemma floor_log2_4: "\<lfloor>log 2 (4::real)\<rfloor> = 2"
proof -
  have "log 2 (4::real) = 2" using log_nat_power [of 2 2 2] by simp
  then show ?thesis by simp
qed

text \<open>
  On \<open>G4\<close>, with a generator that always produces 0, every sample of round 1 is
  \<open>{0}\<close>, of width \<open>m\<close>: the round passes the stability test and gives the estimate.
\<close>

lemma kpt_estimation_G4:
  assumes "0 < k" "k < FLOAT_OVERFLOW"
  shows "kpt_estimation G4 k (\<lambda>i. 0)
         = Inr (4 * real (nat \<lfloor>ci 4 1\<rfloor>) / (2 * ci 4 1), \<lambda>i. 0)"
proof -
  define c where "c = ci 4 1"
  define s where "s = real (nat \<lfloor>c\<rfloor>)"
  have c6: "6 < c" unfolding c_def by (rule ci_gt_6) simp
  have s1: "c - 1 < s" unfolding s_def using c6 by linarith
  have "c / 2 < s" using s1 c6 by linarith
  then have st: "1 / 2 < s / c" using c6 by (simp add: field_simps)
  have pi: "py_int c = \<lfloor>c\<rfloor>" using c6 by (simp add: py_int_def)
  have lg: "\<not> log 2 (4::real) \<le> 0" using log2_ge_2 [of 4] by simp
  have c1: "ci 4 (Suc 0) = c" by (simp add: c_def)
  have sl: "sample_loop G4 k 1 (nat (py_int c)) 0 (\<lambda>i. 0) = Inr (s, \<lambda>i. 0)"
    using sample_loop_G4 [OF assms, of "nat \<lfloor>c\<rfloor>" 0] by (simp add: pi s_def)
  have "kpt_rounds G4 k 4 1 [1] (\<lambda>i. 0) = Inr (4 * s / (2 * c), \<lambda>i. 0)"
    using lg c6 st by (simp add: c1 sl)
  moreover have "[1..<nat 2] = [1::nat]" by (simp add: upt_conv_Cons)
  then have "kpt_estimation G4 k (\<lambda>i. 0) = kpt_rounds G4 k 4 1 [1] (\<lambda>i. 0)"
    using kpt_estimation_unfold [of G4 k "\<lambda>i. 0"]
    by (simp only: valid_G4 floor_log2_4 of_int_numeral)
  ultimately show ?thesis by (simp add: s_def c_def)
qed

lemma kpt_estimation_G4_range:
  "0 < 4 * real (nat \<lfloor>ci 4 1\<rfloor>) / (2 * ci 4 1)"
  "4 * real (nat \<lfloor>ci 4 1\<rfloor>) / (2 * ci 4 1) \<le> 4"
proof -
  have c6: "6 < ci 4 1" by (rule ci_gt_6) simp
  then have s: "0 < real (nat \<lfloor>ci 4 1\<rfloor>)" "real (nat \<lfloor>ci 4 1\<rfloor>) \<le> ci 4 1"
    by linarith+
  show "0 < 4 * real (nat \<lfloor>ci 4 1\<rfloor>) / (2 * ci 4 1)" using s c6 by simp
  have "real (nat \<lfloor>ci 4 1\<rfloor>) / ci 4 1 \<le> 1" using s c6 by simp
  then show "4 * real (nat \<lfloor>ci 4 1\<rfloor>) / (2 * ci 4 1) \<le> 4" by simp
qed

section \<open>Range of the estimate\<close>







section \<open>The rounds of the estimator\<close>

lemma round_result_Suc:
  assumes "valid_graph G" "1 \<le> node_count G" "1 \<le> edge_count G"
    and "0 \<le> k" "k < FLOAT_OVERFLOW"
  shows "sample_loop G k (edge_count G) (nat (py_int (ci (node_count G) (Suc i)))) 0
           (snd (round_result G k g i)) = Inr (round_result G k g (Suc i))"
proof -
  obtain s g' where
    "sample_loop G k (edge_count G) (nat (py_int (ci (node_count G) (Suc i)))) 0
           (snd (round_result G k g i)) = Inr (s, g')"
    using sample_loop_valid [OF assms] by blast
  then show ?thesis by simp
qed

lemma kpt_rounds_first_stable:
  assumes "valid_graph G" "2 \<le> node_count G" "1 \<le> edge_count G"
    and "0 \<le> k" "k < FLOAT_OVERFLOW"
  shows "\<exists>g'. kpt_rounds G k (node_count G) (edge_count G) [Suc a..<b]
                 (snd (round_result G k g a))
          = Inr ((case filter (stability_test G k g) [Suc a..<b] of
                    [] \<Rightarrow> 1
                  | i # later \<Rightarrow> real_of_int (node_count G) * fst (round_result G k g i)
                                  / (2 * ci (node_count G) i)), g')"
proof (induction "b - Suc a" arbitrary: a)
  case 0
  then have e: "[Suc a..<b] = []" by simp
  show ?case unfolding e by simp
next
  case (Suc d)
  let ?n = "node_count G"
  let ?c = "ci ?n (Suc a)"
  from Suc.hyps(2) have lt: "Suc a < b" by simp
  then have u: "[Suc a..<b] = Suc a # [Suc (Suc a)..<b]" by (simp add: upt_conv_Cons)
  have n1: "1 \<le> ?n" using assms(2) by simp
  have c: "?c \<noteq> 0" using ci_pos [OF assms(2), of "Suc a"] by simp
  have lg: "\<not> log 2 (real_of_int ?n) \<le> 0" using log2_ge_1 [OF assms(2)] by simp
  obtain s g1 where r: "round_result G k g (Suc a) = (s, g1)"
    by (cases "round_result G k g (Suc a)")
  have sl: "sample_loop G k (edge_count G) (nat (py_int ?c)) 0 (snd (round_result G k g a))
            = Inr (s, g1)"
    using round_result_Suc [OF assms(1) n1 assms(3,4,5), of a g] r by simp
  have st: "stability_test G k g (Suc a) \<longleftrightarrow> s / ?c > 1 / 2 ^ Suc a"
    unfolding stability_test_def r by simp
  show ?case
  proof (cases "stability_test G k g (Suc a)")
    case True
    have "kpt_rounds G k ?n (edge_count G) (Suc a # [Suc (Suc a)..<b])
            (snd (round_result G k g a))
          = Inr (real_of_int ?n * s / (2 * ?c), g1)"
      unfolding kpt_rounds.simps sl using lg c True st by simp
    moreover have "filter (stability_test G k g) (Suc a # [Suc (Suc a)..<b])
          = Suc a # filter (stability_test G k g) [Suc (Suc a)..<b]"
      using True by simp
    ultimately show ?thesis
      unfolding u using r by simp
  next
    case False
    have d: "d = b - Suc (Suc a)" using Suc.hyps(2) by simp
    obtain g' where ih:
      "kpt_rounds G k ?n (edge_count G) [Suc (Suc a)..<b] (snd (round_result G k g (Suc a)))
       = Inr ((case filter (stability_test G k g) [Suc (Suc a)..<b] of
                 [] \<Rightarrow> 1
               | i # later \<Rightarrow> real_of_int ?n * fst (round_result G k g i) / (2 * ci ?n i)), g')"
      using Suc.hyps(1) [OF d] by blast
    have "kpt_rounds G k ?n (edge_count G) (Suc a # [Suc (Suc a)..<b])
            (snd (round_result G k g a))
          = kpt_rounds G k ?n (edge_count G) [Suc (Suc a)..<b] g1"
      unfolding kpt_rounds.simps sl using lg c False st by simp
    moreover have "filter (stability_test G k g) (Suc a # [Suc (Suc a)..<b])
          = filter (stability_test G k g) [Suc (Suc a)..<b]"
      using False by simp
    moreover have "snd (round_result G k g (Suc a)) = g1" unfolding r by simp
    ultimately show ?thesis
      unfolding u using ih by simp
  qed
qed

text \<open>
  C2, amended: on a valid graph with \<open>n \<ge> 2\<close> and \<open>m \<ge> 1\<close>, and for
  \<open>0 \<le> k < 2\<^sup>1\<^sup>0\<^sup>2\<^sup>4 - 2\<^sup>9\<^sup>7\<^sup>0\<close> (or any \<open>k\<close> when \<open>n < 4\<close>, where no round runs),
  the estimator runs the rounds \<open>i = 1, 2, \<dots>\<close> up to \<open>floor(log2(n)) - 1\<close>, with
  \<open>int(c_i)\<close> samples in round \<open>i\<close>, and returns \<open>n * sum_i / (2 * c_i)\<close> for the
  first round with \<open>sum_i / c_i > 1 / 2^i\<close>, and 1 when no round passes the test.
\<close>

theorem kpt_first_stable_round:
  assumes "valid_graph G" "2 \<le> node_count G" "1 \<le> edge_count G"
    and "(0 \<le> k \<and> k < FLOAT_OVERFLOW) \<or> node_count G < 4"
  shows "\<exists>g'. kpt_estimation G k g =
           Inr (kpt_first_stable (nat \<lfloor>log 2 (real_of_int (node_count G))\<rfloor> - 1) G k g, g')"
proof (cases "node_count G < 4")
  case True
  have n1: "1 \<le> node_count G" using assms(2) by simp
  define U where "U = nat \<lfloor>log 2 (real_of_int (node_count G))\<rfloor>"
  have "\<lfloor>log 2 (real_of_int (node_count G))\<rfloor> \<le> 1"
    using log2_lt_2 [OF n1 True] by linarith
  then have "U - 1 = 0" unfolding U_def by linarith
  then have "kpt_first_stable (U - 1) G k g = 1" by (simp add: kpt_first_stable_def)
  then show ?thesis
    using kpt_estimation_small [OF n1 True, of k g] unfolding U_def by simp
next
  case False
  then have k: "0 \<le> k" "k < FLOAT_OVERFLOW" using assms(4) by simp_all
  define U where "U = nat \<lfloor>log 2 (real_of_int (node_count G))\<rfloor>"
  have "1 \<le> \<lfloor>log 2 (real_of_int (node_count G))\<rfloor>"
    using log2_ge_1 [OF assms(2)] by linarith
  then have U: "Suc (U - 1) = U" by (simp add: U_def)
  have n1: "1 \<le> node_count G" using assms(2) by simp
  have "kpt_estimation G k g =
          kpt_rounds G k (node_count G) (edge_count G) [Suc 0..<U] (snd (round_result G k g 0))"
    using kpt_estimation_unfold [OF n1, of k g] by (simp add: U_def)
  then show ?thesis
    using kpt_rounds_first_stable [OF assms(1,2,3) k, of 0 U g]
    unfolding kpt_first_stable_def U U_def [symmetric] by simp
qed

theorem kpt_first_stable_round_witness:
  "valid_graph G4 \<and> 2 \<le> node_count G4 \<and> 1 \<le> edge_count G4 \<and>
   (0::int) \<le> 1 \<and> (1::int) < FLOAT_OVERFLOW \<and>
   kpt_estimation G4 1 (\<lambda>i. 0) =
     Inr (kpt_first_stable (nat \<lfloor>log 2 (real_of_int (node_count G4))\<rfloor> - 1) G4 1 (\<lambda>i. 0),
          \<lambda>i. 0) \<and>
   kpt_first_stable (nat \<lfloor>log 2 (real_of_int (node_count G4))\<rfloor> - 1) G4 1 (\<lambda>i. 0)
     = 4 * real (nat \<lfloor>ci 4 1\<rfloor>) / (2 * ci 4 1)"
proof -
  have k: "(1::int) < FLOAT_OVERFLOW" by (simp add: FLOAT_OVERFLOW_def)
  have e: "kpt_estimation G4 1 (\<lambda>i. 0)
           = Inr (4 * real (nat \<lfloor>ci 4 1\<rfloor>) / (2 * ci 4 1), \<lambda>i. 0)"
    using k by (intro kpt_estimation_G4) simp_all
  show ?thesis
    using kpt_first_stable_round [of G4 1 "\<lambda>i. 0"] e k by (auto simp: valid_G4)
qed

lemma log2_3_bounds: "1 < log 2 (3::real)" "log 2 (3::real) < 2"
proof -
  have "log 2 2 < log 2 (3::real)" by (subst log_less_cancel_iff) auto
  then show "1 < log 2 (3::real)" by simp
  have "log 2 (3::real) < log 2 4" by (subst log_less_cancel_iff) auto
  moreover have "log 2 (4::real) = 2"
    using log_nat_power [of 2 2 2] by simp
  ultimately show "log 2 (3::real) < 2" by simp
qed

lemma floor_log2_3: "\<lfloor>log 2 (3::real)\<rfloor> = 1"
  using log2_3_bounds by linarith

lemma ceiling_log2_3: "\<lceil>log 2 (3::real)\<rceil> = 2"
  using log2_3_bounds by linarith

lemma ci_3_1_gt_6: "6 < ci 3 1"
proof -
  have "exp 1 \<le> (3::real)" by (rule exp_le)
  then have "ln (exp 1) \<le> ln (3::real)" by (subst ln_le_cancel_iff) auto
  then have a: "1 \<le> ln (3::real)" by simp
  have b: "0 < ln (log 2 (3::real))" using log2_3_bounds(1) by simp
  have "ci 3 1 = 6 * ln (3::real) + 12 * ln (log 2 (3::real))"
    by (simp add: ci_def L_CONSTANT_def)
  then show ?thesis using a b by linarith
qed

lemma rr_G3: "random_reverse_reachable_set G3 (\<lambda>i. 0) = Inr ({0}, \<lambda>i. 0)"
  by (simp add: random_reverse_reachable_set_def random_choice_range_def
      rng_tail_const py_index_def py_slice_def py_clamp_def random_random_def)

lemma width_G3: "width G3 {0} = Inr 1"
  by (simp add: width_def index_ok_def out_degree_def py_index_def)

lemma py_pow_zero_1: "py_pow 0 1 = Inr 0"
  by (rule py_pow_zero) (simp_all add: FLOAT_OVERFLOW_def)

lemma sample_loop_G3: "sample_loop G3 1 1 j cum_sum (\<lambda>i. 0) = Inr (cum_sum + real j, \<lambda>i. 0)"
  by (induction j arbitrary: cum_sum) (simp_all add: rr_G3 width_G3 py_pow_zero_1)

lemma kpt_estimation_G3: "kpt_estimation G3 1 (\<lambda>i. 0) = Inr (1, \<lambda>i. 0)"
  by (simp add: kpt_estimation_def py_int_def floor_log2_3)

lemma round_result_G3:
  "round_result G3 1 (\<lambda>i. 0) (Suc 0) = (real (nat \<lfloor>ci 3 1\<rfloor>), \<lambda>i. 0)"
proof -
  have n: "node_count G3 = 3" and m: "edge_count G3 = 1"
    by (simp_all add: node_count_def edge_count_def)
  have "0 \<le> ci 3 1" using ci_3_1_gt_6 by simp
  then have "py_int (ci 3 1) = \<lfloor>ci 3 1\<rfloor>" by (simp add: py_int_def)
  then show ?thesis by (simp add: n m sample_loop_G3)
qed

lemma kpt_first_stable_G3: "kpt_first_stable (nat \<lceil>log 2 (3::real)\<rceil> - 1) G3 1 (\<lambda>i. 0) \<noteq> 1"
proof -
  define c where "c = ci 3 1"
  define s where "s = real (nat \<lfloor>c\<rfloor>)"
  have c6: "6 < c" unfolding c_def by (rule ci_3_1_gt_6)
  have n: "node_count G3 = 3" by (simp add: node_count_def)
  have s1: "c - 1 < s" unfolding s_def using c6 by linarith
  have "c / 2 < s" using s1 c6 by linarith
  then have st: "1 / 2 < s / c" using c6 by (simp add: field_simps)
  have stab: "stability_test G3 1 (\<lambda>i. 0) (Suc 0)"
    using st by (simp add: stability_test_def round_result_G3 n c_def s_def
        del: round_result.simps)
  have "kpt_first_stable (Suc 0) G3 1 (\<lambda>i. 0) = 3 * s / (2 * c)"
    using stab by (simp add: kpt_first_stable_def round_result_G3 n c_def s_def
        del: round_result.simps)
  moreover have "3 * s / (2 * c) \<noteq> 1"
  proof
    assume "3 * s / (2 * c) = 1"
    then have "3 * s = 2 * c" using c6 by (simp add: field_simps)
    with s1 c6 show False by linarith
  qed
  ultimately show ?thesis by (simp add: ceiling_log2_3)
qed

text \<open>
  C2, as stated: the rounds run up to \<open>ceil(log2(n)) - 1\<close>. On the graph with three
  nodes and the single edge \<open>0 \<rightarrow> 0\<close> of probability 1, with \<open>k = 1\<close> and a
  generator that always produces 0, that would be round 1, which passes the stability
  test (every sample has width \<open>m\<close>) and gives an estimate different from 1; the code
  runs no round, since \<open>int(log2(3)) = 1\<close>, and returns the fallback 1.
\<close>

theorem kpt_rounds_up_to_ceiling_counterexample:
  "kpt_estimation \<lparr>data = [1], rows = [0, 1, 1, 1], cols = [0]\<rparr> 1 (\<lambda>i. 0) = Inr (1, \<lambda>i. 0) \<and>
   kpt_first_stable (nat \<lceil>log 2 (3::real)\<rceil> - 1)
     \<lparr>data = [1], rows = [0, 1, 1, 1], cols = [0]\<rparr> 1 (\<lambda>i. 0) \<noteq> 1"
  using kpt_estimation_G3 kpt_first_stable_G3 by simp

section \<open>The scan of \<^verbatim>\<open>find_most_common_node\<close>\<close>

lemma count_list_take_le: "count_list (take n xs) v \<le> count_list xs v"
proof -
  have "count_list (take n xs @ drop n xs) v = count_list xs v" by simp
  then show ?thesis unfolding count_list_append by linarith
qed

lemma first_reaches_snoc_new:
  assumes "\<forall>u. count_list xs u \<le> M" "count_list xs v = M"
  shows "first_reaches (xs @ [v]) (Suc M) v"
  unfolding first_reaches_def
proof (intro exI [of _ "length xs"] conjI allI impI)
  show "length xs < length (xs @ [v])" by simp
  show "(xs @ [v]) ! length xs = v" by simp
  show "count_list (take (Suc (length xs)) (xs @ [v])) v = Suc M"
    using assms(2) by simp
  fix q assume q: "q < length xs"
  then have "take (Suc q) (xs @ [v]) = take (Suc q) xs" by simp
  moreover have "(xs @ [v]) ! q = xs ! q" using q by (simp add: nth_append)
  moreover have "count_list (take (Suc q) xs) (xs ! q) \<le> count_list xs (xs ! q)"
    by (rule count_list_take_le)
  ultimately show "count_list (take (Suc q) (xs @ [v])) ((xs @ [v]) ! q) < Suc M"
    using assms(1) [rule_format, of "xs ! q"] by simp
qed

lemma first_reaches_snoc_old:
  assumes "first_reaches xs M u"
  shows "first_reaches (xs @ [v]) M u"
proof -
  from assms obtain p where p: "p < length xs" "xs ! p = u"
    "count_list (take (Suc p) xs) u = M"
    "\<forall>q<p. count_list (take (Suc q) xs) (xs ! q) < M"
    unfolding first_reaches_def by blast
  have a: "\<And>q. q \<le> p \<Longrightarrow> take (Suc q) (xs @ [v]) = take (Suc q) xs" using p(1) by simp
  have b: "\<And>q. q \<le> p \<Longrightarrow> (xs @ [v]) ! q = xs ! q" using p(1) by (simp add: nth_append)
  show ?thesis unfolding first_reaches_def
  proof (intro exI [of _ p] conjI allI impI)
    show "p < length (xs @ [v])" using p(1) by simp
    show "(xs @ [v]) ! p = u" using p(2) b [of p] by simp
    show "count_list (take (Suc p) (xs @ [v])) u = M" using p(3) a [of p] by simp
    fix q assume "q < p"
    then show "count_list (take (Suc q) (xs @ [v])) ((xs @ [v]) ! q) < M"
      using p(4) a [of q] b [of q] by simp
  qed
qed

lemma scan_inv_step:
  assumes "scan_inv ps st"
  shows "scan_inv (ps @ [(set_id, node)]) (scan_nodes set_id [node] st)"
proof -
  obtain counts ex maximum mcn where st: "st = (counts, ex, maximum, mcn)"
    by (cases st) auto
  let ?xs = "map snd ps"
  from assms have c: "\<forall>v. counts v = count_list ?xs v"
    and e: "\<forall>v. ex v = map fst (filter (\<lambda>p. snd p = v) ps)"
    and m: "\<forall>v. count_list ?xs v \<le> maximum"
    and f: "if maximum = 0 then mcn = 0 else first_reaches ?xs maximum mcn"
    unfolding scan_inv_def st by auto
  have c': "\<forall>v. (counts (node := counts node + 1)) v = count_list (?xs @ [node]) v"
    using c by simp
  have e': "\<forall>v. (ex (node := ex node @ [set_id])) v
              = map fst (filter (\<lambda>p. snd p = v) (ps @ [(set_id, node)]))"
    using e by simp
  show ?thesis
  proof (cases "counts node + 1 > maximum")
    case True
    have eq: "count_list ?xs node = maximum"
      using True c m [rule_format, of node] by simp
    have m': "\<forall>v. count_list (?xs @ [node]) v \<le> counts node + 1"
      using m c eq by (simp add: le_SucI)
    have "first_reaches (?xs @ [node]) (Suc maximum) node"
      using m eq by (rule first_reaches_snoc_new)
    then have f': "first_reaches (?xs @ [node]) (counts node + 1) node"
      using c eq by simp
    show ?thesis
      unfolding st scan_inv_def using True c' e' m' f' by simp
  next
    case False
    then have le: "counts node + 1 \<le> maximum" by simp
    then have pos: "maximum \<noteq> 0" by simp
    have m': "\<forall>v. count_list (?xs @ [node]) v \<le> maximum"
      using m c le by simp
    have f': "first_reaches (?xs @ [node]) maximum mcn"
      using f pos by (simp add: first_reaches_snoc_old)
    show ?thesis
      unfolding st scan_inv_def using False c' e' m' f' pos by simp
  qed
qed

lemma scan_nodes_Cons:
  "scan_nodes set_id (node # rr_set) st = scan_nodes set_id rr_set (scan_nodes set_id [node] st)"
  by (cases st) (simp add: Let_def)

lemma scan_nodes_inv:
  "scan_inv ps st \<Longrightarrow> scan_inv (ps @ map (Pair set_id) rr_set) (scan_nodes set_id rr_set st)"
proof (induction rr_set arbitrary: ps st)
  case Nil
  then show ?case by simp
next
  case (Cons node rr_set)
  from Cons.IH [OF scan_inv_step [OF Cons.prems, of set_id node]]
  show ?case by (simp add: scan_nodes_Cons [of set_id node rr_set])
qed

lemma scan_sets_inv:
  "scan_inv ps st \<Longrightarrow> scan_inv (ps @ scan_pairs R) (scan_sets R st)"
proof (induction R arbitrary: ps st)
  case Nil
  then show ?case by (simp add: scan_pairs_def)
next
  case (Cons a R)
  obtain set_id rr_set where a: "a = (set_id, rr_set)" by (cases a)
  from Cons.IH [OF scan_nodes_inv [OF Cons.prems, of set_id rr_set]]
  show ?case by (simp add: a scan_pairs_def)
qed

lemma scan_inv_init: "scan_inv [] (\<lambda>node. 0, \<lambda>node. [], 0, 0)"
  by (simp add: scan_inv_def)

lemma map_snd_scan_pairs: "map snd (scan_pairs R) = scan_order R"
  by (induction R) (auto simp: scan_pairs_def scan_order_def comp_def)

lemma count_list_distinct:
  "distinct s \<Longrightarrow> count_list s v = (if v \<in> set s then 1 else 0)"
  by (induction s) auto

lemma scan_order_coverage:
  "\<forall>s\<in>set (map snd R). distinct s \<Longrightarrow> count_list (scan_order R) v = coverage R v"
  by (induction R) (auto simp: scan_order_def coverage_def count_list_distinct)

lemma filter_Pair_distinct:
  "distinct s \<Longrightarrow>
   map fst (filter (\<lambda>p. snd p = v) (map (Pair i) s)) = (if v \<in> set s then [i] else [])"
  by (induction s) auto

lemma scan_pairs_ids:
  "\<forall>s\<in>set (map snd R). distinct s \<Longrightarrow>
   map fst (filter (\<lambda>p. snd p = v) (scan_pairs R))
     = map fst (filter (\<lambda>(i, s). v \<in> set s) R)"
proof (induction R)
  case Nil
  show ?case by (simp add: scan_pairs_def)
next
  case (Cons a R)
  obtain i s where a: "a = (i, s)" by (cases a)
  have ds: "distinct s" using Cons.prems by (simp add: a)
  have ih: "map fst (filter (\<lambda>p. snd p = v) (scan_pairs R))
     = map fst (filter (\<lambda>(i, s). v \<in> set s) R)"
    using Cons by simp
  have "scan_pairs (a # R) = map (Pair i) s @ scan_pairs R"
    by (simp add: scan_pairs_def a)
  then show ?case
    using ih filter_Pair_distinct [OF ds, of v i] by (simp add: a)
qed

lemma first_reaches_count: "first_reaches xs M v \<Longrightarrow> M \<le> count_list xs v"
  unfolding first_reaches_def using count_list_take_le by metis

text \<open>
  On a dictionary of samples with distinct nodes, \<^verbatim>\<open>find_most_common_node\<close> returns
  a node of greatest coverage, the first one to reach that count in the scan, and
  the ids of the samples that contain it; node 0 when no sample has a node.
\<close>

lemma find_most_common_node_spec:
  assumes "wf_rr_sets R" "find_most_common_node (Dict R) = Inr (v, ids)"
  shows "ids = map fst (filter (\<lambda>(i, s). v \<in> set s) R)"
    and "\<forall>u. coverage R u \<le> coverage R v"
    and "if coverage R v = 0 then v = 0
         else first_reaches (scan_order R) (coverage R v) v"
proof -
  have d: "\<forall>s\<in>set (map snd R). distinct s" using assms(1) by (simp add: wf_rr_sets_def)
  obtain counts ex maximum mcn where
    st: "scan_sets R (\<lambda>node. 0, \<lambda>node. [], 0, 0) = (counts, ex, maximum, mcn)"
    by (cases "scan_sets R (\<lambda>node. 0, \<lambda>node. [], 0, 0)") auto
  have inv: "scan_inv (scan_pairs R) (counts, ex, maximum, mcn)"
    using scan_sets_inv [OF scan_inv_init, of R] st by simp
  have "find_most_common_node (Dict R) = Inr (mcn, ex mcn)"
    by (simp add: st)
  then have "Inr (v, ids) = (Inr (mcn, ex mcn) :: error + (int \<times> nat list))"
    using assms(2) by (simp only:)
  then have v: "v = mcn" and ids: "ids = ex mcn"
    by simp_all
  from inv have inv': "(\<forall>v. ex v = map fst (filter (\<lambda>p. snd p = v) (scan_pairs R))) \<and>
      (\<forall>v. count_list (scan_order R) v \<le> maximum) \<and>
      (if maximum = 0 then mcn = 0 else first_reaches (scan_order R) maximum mcn)"
    unfolding scan_inv_def map_snd_scan_pairs by simp
  then have e: "ex mcn = map fst (filter (\<lambda>p. snd p = mcn) (scan_pairs R))"
    and f: "if maximum = 0 then mcn = 0 else first_reaches (scan_order R) maximum mcn"
    by blast+
  have m: "\<forall>u. coverage R u \<le> maximum"
    using inv' by (simp add: scan_order_coverage [OF d])
  show "ids = map fst (filter (\<lambda>(i, s). v \<in> set s) R)"
    using e ids v scan_pairs_ids [OF d] by simp
  have cv: "coverage R mcn = maximum"
  proof (cases "maximum = 0")
    case True
    then show ?thesis using m [rule_format, of mcn] by simp
  next
    case False
    then have "maximum \<le> count_list (scan_order R) mcn"
      using f first_reaches_count by simp
    then show ?thesis using m [rule_format, of mcn] by (simp add: scan_order_coverage [OF d])
  qed
  show "\<forall>u. coverage R u \<le> coverage R v" using m cv v by simp
  show "if coverage R v = 0 then v = 0 else first_reaches (scan_order R) (coverage R v) v"
    using f cv v by simp
qed

lemma find_most_common_node_empty: "find_most_common_node (Dict []) = Inr (0, [])"
  by simp

end
